theory Spec2Isabelle
  imports Main "HOL-Library.Word"
begin

section \<open>C integers and undefined behaviour\<close>

text \<open>
  The three source files are C. \<open>int\<close> is a 32-bit word, \<open>long long\<close> and
  \<open>size_t\<close> are 64-bit words. Unsigned arithmetic wraps. Signed overflow is
  undefined in C, and so are reads outside an object: a run that reaches one stops
  with a value of \<open>ub\<close>. What a compiled program does on signed overflow depends on
  the compiler, so every signed operation takes an \<open>overflow_policy\<close>: \<open>Trap\<close>
  is the reading of the C standard (the run stops at the overflow), \<open>Wrap\<close> is
  two's-complement wrap-around (what the hardware does, \<open>-fwrapv\<close>).

  A result is \<open>(ub + 'a) option\<close>: \<open>None\<close> when the run never returns,
  \<open>Some (Inl e)\<close> when it reaches undefined behaviour \<open>e\<close>, \<open>Some (Inr v)\<close> when
  it returns \<open>v\<close>.
\<close>

datatype ub = SignedOverflow | OutOfBounds | NullDereference | DanglingPointer
  | UninitialisedRead | OverlappingCopy | InvalidFree

datatype overflow_policy = Trap | Wrap

definition add_int :: "overflow_policy \<Rightarrow> 32 word \<Rightarrow> 32 word \<Rightarrow> ub + 32 word" where
  "add_int pol a b =
     (if pol = Wrap \<or> (- (2 ^ 31) \<le> sint a + sint b \<and> sint a + sint b < 2 ^ 31)
      then Inr (a + b) else Inl SignedOverflow)"

definition add_ll :: "overflow_policy \<Rightarrow> 64 word \<Rightarrow> 64 word \<Rightarrow> ub + 64 word" where
  "add_ll pol a b =
     (if pol = Wrap \<or> (- (2 ^ 63) \<le> sint a + sint b \<and> sint a + sint b < 2 ^ 63)
      then Inr (a + b) else Inl SignedOverflow)"

definition mul_ll :: "overflow_policy \<Rightarrow> 64 word \<Rightarrow> 64 word \<Rightarrow> ub + 64 word" where
  "mul_ll pol a b =
     (if pol = Wrap \<or> (- (2 ^ 63) \<le> sint a * sint b \<and> sint a * sint b < 2 ^ 63)
      then Inr (a * b) else Inl SignedOverflow)"

section \<open>fib.c\<close>

text \<open>
  \<^verbatim>\<open>
  long long fibonacci_iterative(int n)
  {
      if (n <= 1) {
          return n;
      }
      long long prev = 0;
      long long current = 1;
      for (int i = 2; i <= n; i++) {
          long long next = prev + current;
          prev = current;
          current = next;
      }
      return current;
  }
  \<close>
  The locals of the loop are a record. \<open>fib_body\<close> is one pass through the loop:
  the body, then \<open>i++\<close>. \<open>fib_loop\<close> is the loop from the test \<open>i <= n\<close> on.
\<close>

record fib_state =
  fib_i :: "32 word"
  fib_prev :: "64 word"
  fib_current :: "64 word"

definition fib_body :: "overflow_policy \<Rightarrow> fib_state \<Rightarrow> ub + fib_state" where
  "fib_body pol s =
     (case add_ll pol (fib_prev s) (fib_current s) of
        Inl e \<Rightarrow> Inl e
      | Inr next \<Rightarrow>
          (case add_int pol (fib_i s) 1 of
             Inl e \<Rightarrow> Inl e
           | Inr i' \<Rightarrow> Inr \<lparr>fib_i = i', fib_prev = fib_current s, fib_current = next\<rparr>))"

partial_function (option) fib_loop ::
  "overflow_policy \<Rightarrow> 32 word \<Rightarrow> fib_state \<Rightarrow> (ub + fib_state) option" where
  "fib_loop pol n s =
     (if fib_i s \<le>s n
      then (case fib_body pol s of
              Inl e \<Rightarrow> Some (Inl e)
            | Inr s' \<Rightarrow> fib_loop pol n s')
      else Some (Inr s))"

definition fib_init :: fib_state where
  "fib_init = \<lparr>fib_i = 2, fib_prev = 0, fib_current = 1\<rparr>"

definition fibonacci_iterative :: "overflow_policy \<Rightarrow> 32 word \<Rightarrow> (ub + 64 word) option" where
  "fibonacci_iterative pol n =
     (if n \<le>s 1 then Some (Inr (scast n))
      else (case fib_loop pol n fib_init of
              None \<Rightarrow> None
            | Some (Inl e) \<Rightarrow> Some (Inl e)
            | Some (Inr s) \<Rightarrow> Some (Inr (fib_current s))))"

text \<open>
  One pass of the loop on wrap-around words, with no check: the state after \<open>k\<close>
  passes is \<open>(fib_pass ^^ k) fib_init\<close>. The counter grows by one in each pass, so
  a loop whose final state is \<open>(fib_pass ^^ k) fib_init\<close> has run \<open>k\<close> times.
\<close>

definition fib_pass :: "fib_state \<Rightarrow> fib_state" where
  "fib_pass s =
     \<lparr>fib_i = fib_i s + 1, fib_prev = fib_current s, fib_current = fib_prev s + fib_current s\<rparr>"

text \<open>The Fibonacci numbers as the specification defines them: F(0)=0, F(1)=1.\<close>

fun fib_spec :: "nat \<Rightarrow> nat" where
  "fib_spec 0 = 0"
| "fib_spec (Suc 0) = 1"
| "fib_spec (Suc (Suc k)) = fib_spec (Suc k) + fib_spec k"

text \<open>
  \<open>fib_acc\<close> computes the same numbers with two accumulators, in a number of steps
  linear in the index; it serves to evaluate \<open>fib_spec\<close> at large indices.
\<close>

fun fib_acc :: "nat \<Rightarrow> int \<Rightarrow> int \<Rightarrow> int" where
  "fib_acc 0 a b = a"
| "fib_acc (Suc k) a b = fib_acc k b (a + b)"

text \<open>
  The loop invariant: on entry to the test with \<open>i = j\<close>, \<open>prev\<close> and \<open>current\<close>
  hold F(j-2) and F(j-1), read as signed numbers.
\<close>

definition fib_inv :: "nat \<Rightarrow> fib_state \<Rightarrow> bool" where
  "fib_inv j s \<longleftrightarrow>
     sint (fib_i s) = int j \<and>
     sint (fib_prev s) = int (fib_spec (j - 2)) \<and>
     sint (fib_current s) = int (fib_spec (j - 1))"

section \<open>array.c\<close>

text \<open>
  \<^verbatim>\<open>
  long long sum_of_squares(const int* arr, size_t n) {
      long long result = 0;
      for (size_t i = 0; i < n; ++i) {
          result += (long long)arr[i] * arr[i];
      }
      return result;
  }
  \<close>
  The array is the list of the \<open>int\<close>s that can be read through \<open>arr\<close>; a read
  past its end is undefined. \<open>n\<close> and \<open>i\<close> are \<open>size_t\<close>: comparison and
  increment are unsigned.
\<close>

definition read_int :: "32 word list \<Rightarrow> 64 word \<Rightarrow> ub + 32 word" where
  "read_int arr i = (if unat i < length arr then Inr (arr ! unat i) else Inl OutOfBounds)"

definition square_term :: "overflow_policy \<Rightarrow> 32 word \<Rightarrow> ub + 64 word" where
  "square_term pol x = mul_ll pol (scast x) (scast x)"

record sum_state =
  sum_i :: "64 word"
  sum_result :: "64 word"

definition sum_body :: "overflow_policy \<Rightarrow> 32 word list \<Rightarrow> sum_state \<Rightarrow> ub + sum_state" where
  "sum_body pol arr s =
     (case read_int arr (sum_i s) of
        Inl e \<Rightarrow> Inl e
      | Inr x \<Rightarrow>
          (case square_term pol x of
             Inl e \<Rightarrow> Inl e
           | Inr sq \<Rightarrow>
               (case add_ll pol (sum_result s) sq of
                  Inl e \<Rightarrow> Inl e
                | Inr r \<Rightarrow> Inr \<lparr>sum_i = sum_i s + 1, sum_result = r\<rparr>)))"

partial_function (option) sum_loop ::
  "overflow_policy \<Rightarrow> 32 word list \<Rightarrow> 64 word \<Rightarrow> sum_state \<Rightarrow> (ub + sum_state) option" where
  "sum_loop pol arr n s =
     (if sum_i s < n
      then (case sum_body pol arr s of
              Inl e \<Rightarrow> Some (Inl e)
            | Inr s' \<Rightarrow> sum_loop pol arr n s')
      else Some (Inr s))"

definition sum_init :: sum_state where
  "sum_init = \<lparr>sum_i = 0, sum_result = 0\<rparr>"

definition sum_of_squares ::
  "overflow_policy \<Rightarrow> 32 word list \<Rightarrow> 64 word \<Rightarrow> (ub + 64 word) option" where
  "sum_of_squares pol arr n =
     (case sum_loop pol arr n sum_init of
        None \<Rightarrow> None
      | Some (Inl e) \<Rightarrow> Some (Inl e)
      | Some (Inr s) \<Rightarrow> Some (Inr (sum_result s)))"

text \<open>One pass of the loop on wrap-around words, with no check.\<close>

definition sum_pass :: "32 word list \<Rightarrow> sum_state \<Rightarrow> sum_state" where
  "sum_pass arr s =
     \<lparr>sum_i = sum_i s + 1,
      sum_result = sum_result s + scast (arr ! unat (sum_i s)) * scast (arr ! unat (sum_i s))\<rparr>"

text \<open>The exact sum of the squares, in unbounded integers.\<close>

definition exact_sum_of_squares :: "32 word list \<Rightarrow> int" where
  "exact_sum_of_squares xs = (\<Sum>x\<leftarrow>xs. sint x * sint x)"

text \<open>
  The loop invariant: after \<open>k\<close> passes the counter is \<open>k\<close> and the accumulator
  holds the exact sum of the squares of the first \<open>k\<close> elements.
\<close>

definition sum_inv :: "32 word list \<Rightarrow> nat \<Rightarrow> sum_state \<Rightarrow> bool" where
  "sum_inv arr k s \<longleftrightarrow>
     unat (sum_i s) = k \<and> sint (sum_result s) = exact_sum_of_squares (take k arr)"

section \<open>string_lib.c\<close>

text \<open>
  \<^verbatim>\<open>
  char* create_string(const char* input) {
      size_t len = strlen(input);
      char* result = (char*)malloc((len + 1) * sizeof(char));
      if (result != NULL) {
          strcpy(result, input);
      }
      return result;
  }

  void free_string(char* str) {
      if (str != NULL) {
          free(str);
      }
  }
  \<close>
  Memory is a list of blocks; a block is released (\<open>None\<close>) or holds its bytes, each
  of them written (\<open>Some c\<close>) or not yet (\<open>None\<close>). A pointer is \<open>NULL\<close> or a
  block number with an offset. Block numbers are never reused, so a block that
  \<open>malloc\<close> returns is distinct from every block that existed before.

  \<open>strlen\<close>, \<open>malloc\<close>, \<open>strcpy\<close> and \<open>free\<close> belong to the C library, not to this
  repository; they are modelled after the C standard. Whether \<open>malloc\<close> can serve a
  request is not decided by the program: it is the parameter \<open>can_alloc\<close>.
\<close>

type_synonym byte = "8 word"

datatype pointer = NULL | Ptr nat nat

type_synonym memory = "byte option list option list"

definition block_of :: "memory \<Rightarrow> nat \<Rightarrow> byte option list option" where
  "block_of m b = (if b < length m then m ! b else None)"

text \<open>The bytes before the first zero byte; running off the block is undefined.\<close>

fun read_string :: "byte option list \<Rightarrow> ub + byte list" where
  "read_string [] = Inl OutOfBounds"
| "read_string (None # cs) = Inl UninitialisedRead"
| "read_string (Some c # cs) =
     (if c = 0 then Inr []
      else (case read_string cs of Inl e \<Rightarrow> Inl e | Inr s \<Rightarrow> Inr (c # s)))"

definition load_string :: "memory \<Rightarrow> pointer \<Rightarrow> ub + byte list" where
  "load_string m p =
     (case p of
        NULL \<Rightarrow> Inl NullDereference
      | Ptr b off \<Rightarrow>
          (case block_of m b of
             None \<Rightarrow> Inl DanglingPointer
           | Some cs \<Rightarrow> read_string (drop off cs)))"

definition strlen :: "memory \<Rightarrow> pointer \<Rightarrow> ub + 64 word" where
  "strlen m p =
     (case load_string m p of
        Inl e \<Rightarrow> Inl e
      | Inr s \<Rightarrow> Inr (of_nat (length s)))"

definition malloc ::
  "(memory \<Rightarrow> 64 word \<Rightarrow> bool) \<Rightarrow> memory \<Rightarrow> 64 word \<Rightarrow> pointer \<times> memory" where
  "malloc can_alloc m sz =
     (if can_alloc m sz
      then (Ptr (length m) 0, m @ [Some (replicate (unat sz) None)])
      else (NULL, m))"

definition strcpy :: "memory \<Rightarrow> pointer \<Rightarrow> pointer \<Rightarrow> ub + memory" where
  "strcpy m dst src =
     (case load_string m src of
        Inl e \<Rightarrow> Inl e
      | Inr s \<Rightarrow>
          (case dst of
             NULL \<Rightarrow> Inl NullDereference
           | Ptr b off \<Rightarrow>
               (case block_of m b of
                  None \<Rightarrow> Inl DanglingPointer
                | Some cs \<Rightarrow>
                    if length cs < off + (length s + 1) then Inl OutOfBounds
                    else if (case src of
                               NULL \<Rightarrow> False
                             | Ptr b' off' \<Rightarrow>
                                 b' = b \<and> off' < off + (length s + 1)
                                   \<and> off < off' + (length s + 1))
                    then Inl OverlappingCopy
                    else Inr (m[b := Some (take off cs @ map Some (s @ [0])
                                            @ drop (off + (length s + 1)) cs)]))))"

definition free :: "memory \<Rightarrow> pointer \<Rightarrow> ub + memory" where
  "free m p =
     (case p of
        NULL \<Rightarrow> Inr m
      | Ptr b off \<Rightarrow>
          (if off = 0 \<and> block_of m b \<noteq> None then Inr (m[b := None])
           else Inl InvalidFree))"

definition create_string ::
  "(memory \<Rightarrow> 64 word \<Rightarrow> bool) \<Rightarrow> memory \<Rightarrow> pointer \<Rightarrow> ub + pointer \<times> memory" where
  "create_string can_alloc m input =
     (case strlen m input of
        Inl e \<Rightarrow> Inl e
      | Inr len \<Rightarrow>
          (case malloc can_alloc m ((len + 1) * 1) of
             (result, m') \<Rightarrow>
               if result \<noteq> NULL
               then (case strcpy m' result input of
                       Inl e \<Rightarrow> Inl e
                     | Inr m'' \<Rightarrow> Inr (result, m''))
               else Inr (result, m')))"

definition free_string :: "memory \<Rightarrow> pointer \<Rightarrow> ub + memory" where
  "free_string m str = (if str \<noteq> NULL then free m str else Inr m)"

text \<open>
  \<open>c_string m p s\<close>: the pointer \<open>p\<close> refers to the null-terminated string \<open>s\<close> in
  memory \<open>m\<close>. The string and its terminator lie in one object, and no object is
  larger than \<open>SIZE_MAX\<close> bytes.
\<close>

definition c_string :: "memory \<Rightarrow> pointer \<Rightarrow> byte list \<Rightarrow> bool" where
  "c_string m p s \<longleftrightarrow> load_string m p = Inr s \<and> length s + 1 < 2 ^ 64"

section \<open>fib.c on the machine state\<close>

text \<open>
  The same function, statement by statement, on the state a call really runs in:
  the memory of the program (the blocks that \<open>create_string\<close> and \<open>free_string\<close>
  change) and the frame of the call, whose five variables hold whatever was there
  before until they are assigned. A call gets this state and the argument and
  returns the memory with the value.
\<close>

record fib_frame =
  loc_n :: "32 word"
  loc_prev :: "64 word"
  loc_current :: "64 word"
  loc_i :: "32 word"
  loc_next :: "64 word"

definition fib_frame_body ::
  "overflow_policy \<Rightarrow> memory \<times> fib_frame \<Rightarrow> ub + memory \<times> fib_frame" where
  "fib_frame_body pol c =
     (case c of (m, l) \<Rightarrow>
        (case add_ll pol (loc_prev l) (loc_current l) of
           Inl e \<Rightarrow> Inl e
         | Inr v \<Rightarrow>
             (let l1 = l\<lparr>loc_next := v\<rparr>;
                  l2 = l1\<lparr>loc_prev := loc_current l1\<rparr>;
                  l3 = l2\<lparr>loc_current := loc_next l2\<rparr>
              in case add_int pol (loc_i l3) 1 of
                   Inl e \<Rightarrow> Inl e
                 | Inr j \<Rightarrow> Inr (m, l3\<lparr>loc_i := j\<rparr>))))"

partial_function (option) fib_frame_loop ::
  "overflow_policy \<Rightarrow> memory \<times> fib_frame \<Rightarrow> (ub + memory \<times> fib_frame) option" where
  "fib_frame_loop pol c =
     (if loc_i (snd c) \<le>s loc_n (snd c)
      then (case fib_frame_body pol c of
              Inl e \<Rightarrow> Some (Inl e)
            | Inr c' \<Rightarrow> fib_frame_loop pol c')
      else Some (Inr c))"

definition fibonacci_iterative_on ::
  "overflow_policy \<Rightarrow> memory \<times> fib_frame \<Rightarrow> 32 word \<Rightarrow> (ub + memory \<times> 64 word) option" where
  "fibonacci_iterative_on pol c n =
     (case c of (m, l) \<Rightarrow>
        (let l0 = l\<lparr>loc_n := n\<rparr> in
         if loc_n l0 \<le>s 1 then Some (Inr (m, scast (loc_n l0)))
         else (let l1 = l0\<lparr>loc_prev := 0\<rparr>;
                   l2 = l1\<lparr>loc_current := 1\<rparr>;
                   l3 = l2\<lparr>loc_i := 2\<rparr>
               in case fib_frame_loop pol (m, l3) of
                    None \<Rightarrow> None
                  | Some (Inl e) \<Rightarrow> Some (Inl e)
                  | Some (Inr (m', l')) \<Rightarrow> Some (Inr (m', loc_current l')))))"

text \<open>
  The part of a frame that \<open>fib_loop\<close> works on, and when an outcome on the machine
  state and an outcome of \<open>fib_loop\<close> are the same run: same undefined behaviour,
  or same loop state with the memory and the parameter as they were.
\<close>

definition state_of :: "fib_frame \<Rightarrow> fib_state" where
  "state_of l = \<lparr>fib_i = loc_i l, fib_prev = loc_prev l, fib_current = loc_current l\<rparr>"

definition same_run ::
  "memory \<Rightarrow> 32 word \<Rightarrow> ub + memory \<times> fib_frame \<Rightarrow> ub + fib_state \<Rightarrow> bool" where
  "same_run m n y r =
     (case y of
        Inl e \<Rightarrow> r = Inl e
      | Inr (m', l') \<Rightarrow> m' = m \<and> loc_n l' = n \<and> r = Inr (state_of l'))"

declare fib_loop.simps [code]

declare sum_loop.simps [code]

section \<open>Signed arithmetic on words\<close>

lemma sint_add_ll:
  fixes a b :: "64 word"
  assumes "- (2 ^ 63) \<le> sint a + sint b" "sint a + sint b < 2 ^ 63"
  shows "sint (a + b) = sint a + sint b"
  using assms by (simp add: sint_word_add signed_take_bit_int_eq_self)

lemma sint_mul_ll:
  fixes a b :: "64 word"
  assumes "- (2 ^ 63) \<le> sint a * sint b" "sint a * sint b < 2 ^ 63"
  shows "sint (a * b) = sint a * sint b"
  using assms by (simp add: sint_word_mult signed_take_bit_int_eq_self)

lemma sint_add_int:
  fixes a b :: "32 word"
  assumes "- (2 ^ 31) \<le> sint a + sint b" "sint a + sint b < 2 ^ 31"
  shows "sint (a + b) = sint a + sint b"
  using assms by (simp add: sint_word_add signed_take_bit_int_eq_self)

lemma sint_int_range:
  fixes x :: "32 word"
  shows "- (2 ^ 31) \<le> sint x" "sint x < 2 ^ 31"
  using sint_ge [of x] sint_lt [of x] by simp_all

lemma sint_widen:
  fixes x :: "32 word"
  shows "sint (scast x :: 64 word) = sint x"
  by (simp add: sint_up_scast is_up)

lemma square_range:
  fixes x :: "32 word"
  shows "0 \<le> sint x * sint x" "sint x * sint x \<le> 2 ^ 62"
proof -
  show "0 \<le> sint x * sint x" by simp
  have "\<bar>sint x\<bar> \<le> 2 ^ 31"
    using sint_int_range [of x] by linarith
  then have "\<bar>sint x\<bar> * \<bar>sint x\<bar> \<le> 2 ^ 31 * 2 ^ 31"
    by (intro mult_mono) simp_all
  then show "sint x * sint x \<le> 2 ^ 62"
    by simp
qed

section \<open>The Fibonacci loop\<close>

lemma fib_acc_spec:
  "fib_acc k (int (fib_spec j)) (int (fib_spec (Suc j))) = int (fib_spec (j + k))"
proof (induction k arbitrary: j)
  case 0
  show ?case by simp
next
  case (Suc k)
  have "fib_acc (Suc k) (int (fib_spec j)) (int (fib_spec (Suc j))) =
      fib_acc k (int (fib_spec (Suc j))) (int (fib_spec (Suc (Suc j))))"
    by (simp add: add.commute)
  also have "\<dots> = int (fib_spec (Suc j + k))" by (rule Suc.IH)
  finally show ?case by simp
qed

lemma fib_acc_numeral: "fib_acc (numeral k) a b = fib_acc (pred_numeral k) b (a + b)"
  by (simp add: numeral_eq_Suc)

lemma fib_spec_92: "int (fib_spec 92) = 7540113804746346429"
proof -
  have "fib_acc 92 0 1 = 7540113804746346429"
    by (simp add: fib_acc_numeral)
  moreover have "fib_acc 92 (int (fib_spec 0)) (int (fib_spec (Suc 0))) = int (fib_spec (0 + 92))"
    by (rule fib_acc_spec)
  ultimately show ?thesis by simp
qed

lemma fib_spec_mono_Suc: "fib_spec k \<le> fib_spec (Suc k)"
  by (induction k rule: fib_spec.induct) simp_all

lemma fib_spec_mono: "j \<le> k \<Longrightarrow> fib_spec j \<le> fib_spec k"
  by (rule lift_Suc_mono_le [of fib_spec]) (rule fib_spec_mono_Suc)

lemma fib_spec_fits: "k \<le> 92 \<Longrightarrow> int (fib_spec k) < 2 ^ 63"
proof -
  assume "k \<le> 92"
  then have "int (fib_spec k) \<le> int (fib_spec 92)"
    using fib_spec_mono [of k 92] by simp
  then show ?thesis by (simp add: fib_spec_92)
qed

lemma fib_spec_step: "2 \<le> j \<Longrightarrow> fib_spec j = fib_spec (j - 1) + fib_spec (j - 2)"
  by (cases j rule: fib_spec.cases) simp_all

lemma fib_inv_init: "fib_inv 2 fib_init"
  by (simp add: fib_inv_def fib_init_def)

lemma fib_body_inv:
  assumes inv: "fib_inv j s" and j: "2 \<le> j" "j \<le> 92"
  shows "fib_body pol s = Inr (fib_pass s) \<and> fib_inv (Suc j) (fib_pass s)"
proof -
  from inv have i: "sint (fib_i s) = int j"
    and p: "sint (fib_prev s) = int (fib_spec (j - 2))"
    and c: "sint (fib_current s) = int (fib_spec (j - 1))"
    by (simp_all add: fib_inv_def)
  have sum: "sint (fib_prev s) + sint (fib_current s) = int (fib_spec j)"
    using j fib_spec_step [of j] by (simp add: p c)
  have fits: "int (fib_spec j) < 2 ^ 63"
    using j(2) by (rule fib_spec_fits)
  have nxt: "sint (fib_prev s + fib_current s) = int (fib_spec j)"
    using sum fits by (simp add: sint_add_ll)
  have add: "add_ll pol (fib_prev s) (fib_current s) = Inr (fib_prev s + fib_current s)"
    using sum fits by (simp add: add_ll_def)
  have i1: "sint (fib_i s) + sint (1 :: 32 word) = int (Suc j)"
    using i by simp
  have inc: "sint (fib_i s + 1) = int (Suc j)"
    using i1 j sint_add_int [of "fib_i s" 1] by simp
  have addi: "add_int pol (fib_i s) 1 = Inr (fib_i s + 1)"
    using i1 j by (simp add: add_int_def)
  show ?thesis
    using add addi nxt inc c by (simp add: fib_body_def fib_pass_def fib_inv_def)
qed

lemma fib_loop_inv:
  assumes n: "sint n \<le> 92"
  shows "2 \<le> j \<Longrightarrow> int j \<le> sint n + 1 \<Longrightarrow> fib_inv j s \<Longrightarrow>
    fib_loop pol n s = Some (Inr ((fib_pass ^^ (nat (sint n) + 1 - j)) s)) \<and>
    fib_inv (nat (sint n) + 1) ((fib_pass ^^ (nat (sint n) + 1 - j)) s)"
proof (induction "nat (sint n) + 1 - j" arbitrary: j s)
  case 0
  then have j: "int j = sint n + 1" by linarith
  with 0 have "\<not> fib_i s \<le>s n" by (simp add: fib_inv_def word_sle_eq)
  moreover from j "0.prems"(1) have "nat (sint n) + 1 - j = 0" "nat (sint n) + 1 = j"
    by linarith+
  ultimately show ?case using 0 by (subst fib_loop.simps) simp
next
  case (Suc d)
  then have j: "int j \<le> sint n" "j \<le> 92" using n by linarith+
  with Suc have test: "fib_i s \<le>s n" by (simp add: fib_inv_def word_sle_eq)
  have body: "fib_body pol s = Inr (fib_pass s)" and inv': "fib_inv (Suc j) (fib_pass s)"
    using fib_body_inv [OF Suc.prems(3) Suc.prems(1) j(2)] by simp_all
  have d: "d = nat (sint n) + 1 - Suc j" using Suc.hyps(2) by linarith
  have more: "nat (sint n) + 1 - j = Suc (nat (sint n) + 1 - Suc j)"
    using Suc.hyps(2) by linarith
  have IH: "fib_loop pol n (fib_pass s) =
      Some (Inr ((fib_pass ^^ (nat (sint n) + 1 - Suc j)) (fib_pass s))) \<and>
      fib_inv (nat (sint n) + 1) ((fib_pass ^^ (nat (sint n) + 1 - Suc j)) (fib_pass s))"
    using Suc.hyps(1) [OF d _ _ inv'] j Suc.prems(1) by simp
  have unfold: "(fib_pass ^^ (nat (sint n) + 1 - j)) s =
      (fib_pass ^^ (nat (sint n) + 1 - Suc j)) (fib_pass s)"
    by (subst more) (simp only: funpow_Suc_right o_apply)
  have loop: "fib_loop pol n s = fib_loop pol n (fib_pass s)"
    using test body by (subst fib_loop.simps) simp
  show ?case
    using IH by (simp only: unfold loop)
qed

lemma sint_decr:
  fixes n :: "32 word"
  assumes "0 \<le> sint n" and k: "k = 1 \<or> k = 2" and "int k \<le> sint n"
  shows "sint (n - of_nat k) = sint n - int k"
proof -
  have "sint (n - of_nat k) = signed_take_bit (LENGTH(32) - 1) (sint n - sint (of_nat k :: 32 word))"
    by (rule sint_word_diff)
  moreover have "sint (of_nat k :: 32 word) = int k"
    using k by auto
  moreover have "- (2 ^ 31) \<le> sint n - int k" "sint n - int k < 2 ^ 31"
    using assms sint_int_range(2) [of n] by auto
  ultimately show ?thesis
    by (simp add: signed_take_bit_int_eq_self)
qed

lemma fib_value:
  assumes n: "0 \<le> sint n" "sint n \<le> 92"
  shows "\<exists>r. fibonacci_iterative pol n = Some (Inr r) \<and> sint r = int (fib_spec (nat (sint n)))"
proof (cases "n \<le>s 1")
  case True
  then have "sint n = 0 \<or> sint n = 1"
    using n by (auto simp: word_sle_eq)
  then have "sint (scast n :: 64 word) = int (fib_spec (nat (sint n)))"
    by (auto simp: sint_widen)
  with True show ?thesis by (simp add: fibonacci_iterative_def)
next
  case False
  then have two: "2 \<le> sint n" by (simp add: word_sle_eq)
  let ?s = "(fib_pass ^^ (nat (sint n) + 1 - 2)) fib_init"
  have "fib_loop pol n fib_init = Some (Inr ?s) \<and> fib_inv (nat (sint n) + 1) ?s"
    using two by (intro fib_loop_inv n fib_inv_init) simp_all
  then show ?thesis
    using False by (simp add: fibonacci_iterative_def fib_inv_def)
qed

lemma fib_passes:
  assumes n: "2 \<le> sint n" "sint n \<le> 92"
  shows "fib_loop pol n fib_init = Some (Inr ((fib_pass ^^ (nat (sint n) - 1)) fib_init))"
proof -
  have "fib_loop pol n fib_init = Some (Inr ((fib_pass ^^ (nat (sint n) + 1 - 2)) fib_init))"
    using n by (intro fib_loop_inv [THEN conjunct1] fib_inv_init) simp_all
  then show ?thesis by simp
qed

lemma fib_body_wrap: "fib_body Wrap s = Inr (fib_pass s)"
  by (simp add: fib_body_def add_ll_def add_int_def fib_pass_def)

lemma below_int_max:
  fixes k :: "32 word"
  assumes "k \<noteq> 0x7FFFFFFF"
  shows "sint k < 2 ^ 31 - 1"
proof (rule ccontr)
  assume "\<not> sint k < 2 ^ 31 - 1"
  then have "sint k = sint (0x7FFFFFFF :: 32 word)"
    using sint_int_range(2) [of k] by simp
  then have "k = 0x7FFFFFFF" by (rule signed_word_eqI)
  with assms show False by simp
qed

lemma sint_incr:
  fixes i n :: "32 word"
  assumes "i \<le>s n" "sint n < 2 ^ 31 - 1"
  shows "sint (i + 1) = sint i + 1"
proof -
  have "sint i + sint (1 :: 32 word) < 2 ^ 31"
    using assms by (simp add: word_sle_eq)
  moreover have "- (2 ^ 31) \<le> sint i + sint (1 :: 32 word)"
    using sint_int_range(1) [of i] by simp
  ultimately have "sint (i + 1) = sint i + sint (1 :: 32 word)"
    by (intro sint_add_int)
  then show ?thesis by simp
qed

lemma fib_loop_wrap:
  assumes n: "sint n < 2 ^ 31 - 1"
  shows "sint (fib_i s) \<le> sint n + 1 \<Longrightarrow>
    fib_loop Wrap n s = Some (Inr ((fib_pass ^^ nat (sint n + 1 - sint (fib_i s))) s))"
proof (induction "nat (sint n + 1 - sint (fib_i s))" arbitrary: s)
  case 0
  then have "\<not> fib_i s \<le>s n" by (simp add: word_sle_eq)
  moreover have "nat (sint n + 1 - sint (fib_i s)) = 0" using 0 by simp
  ultimately show ?case by (subst fib_loop.simps) simp
next
  case (Suc d)
  then have test: "fib_i s \<le>s n" by (simp add: word_sle_eq)
  have i': "sint (fib_i (fib_pass s)) = sint (fib_i s) + 1"
    using sint_incr [OF test n] by (simp add: fib_pass_def)
  have d: "d = nat (sint n + 1 - sint (fib_i (fib_pass s)))"
    using Suc.hyps(2) i' by linarith
  have le: "sint (fib_i (fib_pass s)) \<le> sint n + 1"
    using Suc.hyps(2) i' by linarith
  have IH: "fib_loop Wrap n (fib_pass s) =
      Some (Inr ((fib_pass ^^ nat (sint n + 1 - sint (fib_i (fib_pass s)))) (fib_pass s)))"
    by (rule Suc.hyps(1) [OF d le])
  have more: "nat (sint n + 1 - sint (fib_i s)) = Suc (nat (sint n + 1 - sint (fib_i (fib_pass s))))"
    using Suc.hyps(2) i' by linarith
  have unfold: "(fib_pass ^^ nat (sint n + 1 - sint (fib_i s))) s =
      (fib_pass ^^ nat (sint n + 1 - sint (fib_i (fib_pass s)))) (fib_pass s)"
    by (subst more) (simp only: funpow_Suc_right o_apply)
  have loop: "fib_loop Wrap n s = fib_loop Wrap n (fib_pass s)"
    using test by (subst fib_loop.simps) (simp add: fib_body_wrap)
  show ?case
    using IH by (simp only: unfold loop)
qed

lemma fib_loop_wrap_diverges: "fib_loop Wrap 0x7FFFFFFF s = None"
proof (cases "fib_loop Wrap 0x7FFFFFFF s")
  case None
  then show ?thesis .
next
  case (Some y)
  have "\<not> (Wrap = Wrap \<and> (0x7FFFFFFF :: 32 word) = 0x7FFFFFFF)"
  proof (rule fib_loop.raw_induct
      [where P = "\<lambda>pol n s y. \<not> (pol = Wrap \<and> n = 0x7FFFFFFF)", OF _ Some])
    fix f pol n s y
    assume IH: "\<And>pol n s y. f pol n s = Some y \<Longrightarrow> \<not> (pol = Wrap \<and> n = 0x7FFFFFFF)"
      and step: "(if fib_i s \<le>s n
          then case fib_body pol s of Inl e \<Rightarrow> Some (Inl e) | Inr s' \<Rightarrow> f pol n s'
          else Some (Inr s)) = Some y"
    show "\<not> (pol = Wrap \<and> n = 0x7FFFFFFF)"
    proof
      assume max: "pol = Wrap \<and> n = 0x7FFFFFFF"
      have "fib_i s \<le>s (0x7FFFFFFF :: 32 word)"
        using sint_int_range(2) [of "fib_i s"] by (simp add: word_sle_eq)
      with step max have "f pol n (fib_pass s) = Some y"
        by (simp add: fib_body_wrap)
      from IH [OF this] max show False by simp
    qed
  qed
  then show ?thesis by simp
qed

lemma fib_max_wrap: "fibonacci_iterative Wrap 0x7FFFFFFF = None"
  by (simp add: fibonacci_iterative_def fib_loop_wrap_diverges word_sle_eq)

lemma fib_max_trap: "fibonacci_iterative Trap 0x7FFFFFFF = Some (Inl SignedOverflow)"
  by code_simp

section \<open>The sum-of-squares loop\<close>

lemma square_term_exact:
  "square_term pol x = Inr (scast x * scast x)"
  "sint (scast x * scast x :: 64 word) = sint x * sint x"
proof -
  have "- (2 ^ 63) \<le> (0 :: int)" by simp
  then have lo: "- (2 ^ 63) \<le> sint x * sint x"
    using square_range(1) [of x] by (rule order_trans)
  have "(2 :: int) ^ 62 < 2 ^ 63" by simp
  with square_range(2) [of x] have hi: "sint x * sint x < 2 ^ 63"
    by (rule le_less_trans)
  show "square_term pol x = Inr (scast x * scast x)"
    using lo hi by (simp add: square_term_def mul_ll_def sint_widen)
  show "sint (scast x * scast x :: 64 word) = sint x * sint x"
    using lo hi sint_mul_ll [of "scast x" "scast x"] by (simp add: sint_widen)
qed

lemma exact_sum_append:
  "exact_sum_of_squares (xs @ ys) = exact_sum_of_squares xs + exact_sum_of_squares ys"
  by (simp add: exact_sum_of_squares_def)

lemma exact_sum_nonneg: "0 \<le> exact_sum_of_squares xs"
  unfolding exact_sum_of_squares_def by (induction xs) simp_all

lemma exact_sum_take_Suc:
  "k < length arr \<Longrightarrow>
   exact_sum_of_squares (take (Suc k) arr) =
     exact_sum_of_squares (take k arr) + sint (arr ! k) * sint (arr ! k)"
  by (simp add: take_Suc_conv_app_nth exact_sum_of_squares_def)

lemma exact_sum_take_mono:
  assumes "k \<le> m"
  shows "exact_sum_of_squares (take k arr) \<le> exact_sum_of_squares (take m arr)"
proof -
  have "take m arr = take k arr @ drop k (take m arr)"
    using assms by (metis append_take_drop_id min.absorb1 take_take)
  then have "exact_sum_of_squares (take m arr) =
      exact_sum_of_squares (take k arr) + exact_sum_of_squares (drop k (take m arr))"
    by (metis exact_sum_append)
  then show ?thesis
    using exact_sum_nonneg [of "drop k (take m arr)"] by linarith
qed

lemma unat_incr:
  fixes i n :: "64 word"
  assumes "i < n"
  shows "unat (i + 1) = Suc (unat i)"
proof -
  have "unat i < unat n" using assms by (simp add: word_less_nat_alt)
  moreover have "unat n < 2 ^ 64" using unsigned_less [of n, where 'a = nat] by simp
  ultimately have "unat i + unat (1 :: 64 word) < 2 ^ LENGTH(64)" by simp
  then have "unat (i + 1) = unat i + unat (1 :: 64 word)"
    by (simp only: unat_add_lem)
  then show ?thesis by simp
qed

lemma sum_inv_init: "sum_inv arr 0 sum_init"
  by (simp add: sum_inv_def sum_init_def exact_sum_of_squares_def)

lemma sum_body_inv:
  assumes inv: "sum_inv arr k s" and test: "sum_i s < n"
    and len: "unat n \<le> length arr"
    and fits: "exact_sum_of_squares (take (unat n) arr) < 2 ^ 63"
  shows "sum_body pol arr s = Inr (sum_pass arr s) \<and> sum_inv arr (Suc k) (sum_pass arr s)"
proof -
  from inv have i: "unat (sum_i s) = k"
    and r: "sint (sum_result s) = exact_sum_of_squares (take k arr)"
    by (simp_all add: sum_inv_def)
  have k: "k < unat n" using test i by (simp add: word_less_nat_alt)
  then have klen: "k < length arr" using len by linarith
  let ?x = "arr ! k"
  let ?sq = "scast ?x * scast ?x :: 64 word"
  have rd: "read_int arr (sum_i s) = Inr ?x"
    using klen i by (simp add: read_int_def)
  have total: "sint (sum_result s) + sint ?sq = exact_sum_of_squares (take (Suc k) arr)"
    using klen by (simp add: r square_term_exact(2) exact_sum_take_Suc)
  have "exact_sum_of_squares (take (Suc k) arr) \<le> exact_sum_of_squares (take (unat n) arr)"
    using k by (intro exact_sum_take_mono) simp
  then have hi: "sint (sum_result s) + sint ?sq < 2 ^ 63"
    using fits total by simp
  have lo: "- (2 ^ 63) \<le> sint (sum_result s) + sint ?sq"
    using exact_sum_nonneg [of "take (Suc k) arr"] total by simp
  have add: "add_ll pol (sum_result s) ?sq = Inr (sum_result s + ?sq)"
    using lo hi by (simp add: add_ll_def)
  have val: "sint (sum_result s + ?sq) = exact_sum_of_squares (take (Suc k) arr)"
    using lo hi total by (simp add: sint_add_ll)
  have inc: "unat (sum_i s + 1) = Suc k"
    using unat_incr [OF test] i by simp
  have body: "sum_body pol arr s = Inr (sum_pass arr s)"
    using rd add i by (simp add: sum_body_def sum_pass_def square_term_exact(1))
  have "sum_inv arr (Suc k) (sum_pass arr s)"
    using val inc i by (simp add: sum_inv_def sum_pass_def)
  with body show ?thesis by simp
qed

lemma sum_loop_inv:
  assumes len: "unat n \<le> length arr"
    and fits: "exact_sum_of_squares (take (unat n) arr) < 2 ^ 63"
  shows "k \<le> unat n \<Longrightarrow> sum_inv arr k s \<Longrightarrow>
    sum_loop pol arr n s = Some (Inr ((sum_pass arr ^^ (unat n - k)) s)) \<and>
    sum_inv arr (unat n) ((sum_pass arr ^^ (unat n - k)) s)"
proof (induction "unat n - k" arbitrary: k s)
  case 0
  then have k: "k = unat n" by simp
  with 0 have "\<not> sum_i s < n" by (simp add: sum_inv_def word_less_nat_alt)
  then have "sum_loop pol arr n s = Some (Inr s)"
    by (subst sum_loop.simps) simp
  then show ?case using 0 k by simp
next
  case (Suc d)
  then have k: "k < unat n" by linarith
  with Suc.prems have test: "sum_i s < n" by (simp add: sum_inv_def word_less_nat_alt)
  have body: "sum_body pol arr s = Inr (sum_pass arr s)"
    and inv': "sum_inv arr (Suc k) (sum_pass arr s)"
    using sum_body_inv [OF Suc.prems(2) test len fits] by simp_all
  have d: "d = unat n - Suc k" using Suc.hyps(2) by linarith
  have le: "Suc k \<le> unat n" using k by simp
  have IH: "sum_loop pol arr n (sum_pass arr s) =
      Some (Inr ((sum_pass arr ^^ (unat n - Suc k)) (sum_pass arr s))) \<and>
      sum_inv arr (unat n) ((sum_pass arr ^^ (unat n - Suc k)) (sum_pass arr s))"
    by (rule Suc.hyps(1) [OF d le inv'])
  have more: "unat n - k = Suc (unat n - Suc k)" using k by linarith
  have unfold: "(sum_pass arr ^^ (unat n - k)) s =
      (sum_pass arr ^^ (unat n - Suc k)) (sum_pass arr s)"
    by (subst more) (simp only: funpow_Suc_right o_apply)
  have loop: "sum_loop pol arr n s = sum_loop pol arr n (sum_pass arr s)"
    using test body by (subst sum_loop.simps) simp
  show ?case
    using IH by (simp only: unfold loop)
qed

lemma sum_body_wrap:
  "unat (sum_i s) < length arr \<Longrightarrow> sum_body Wrap arr s = Inr (sum_pass arr s)"
  by (simp add: sum_body_def read_int_def square_term_def mul_ll_def add_ll_def sum_pass_def)

lemma sum_loop_wrap:
  assumes len: "unat n \<le> length arr"
  shows "sum_i s \<le> n \<Longrightarrow>
    sum_loop Wrap arr n s = Some (Inr ((sum_pass arr ^^ (unat n - unat (sum_i s))) s))"
proof (induction "unat n - unat (sum_i s)" arbitrary: s)
  case 0
  then have "\<not> sum_i s < n" by (simp add: word_less_nat_alt)
  moreover have "unat n - unat (sum_i s) = 0" using 0 by simp
  ultimately show ?case by (subst sum_loop.simps) simp
next
  case (Suc d)
  then have test: "sum_i s < n" by (simp add: word_less_nat_alt)
  then have "unat (sum_i s) < length arr" using len by (simp add: word_less_nat_alt)
  then have body: "sum_body Wrap arr s = Inr (sum_pass arr s)" by (rule sum_body_wrap)
  have i': "unat (sum_i (sum_pass arr s)) = Suc (unat (sum_i s))"
    using unat_incr [OF test] by (simp add: sum_pass_def)
  have d: "d = unat n - unat (sum_i (sum_pass arr s))"
    using Suc.hyps(2) i' by linarith
  have le: "sum_i (sum_pass arr s) \<le> n"
    using test i' by (simp add: word_less_nat_alt word_le_nat_alt)
  have IH: "sum_loop Wrap arr n (sum_pass arr s) =
      Some (Inr ((sum_pass arr ^^ (unat n - unat (sum_i (sum_pass arr s)))) (sum_pass arr s)))"
    by (rule Suc.hyps(1) [OF d le])
  have more: "unat n - unat (sum_i s) = Suc (unat n - unat (sum_i (sum_pass arr s)))"
    using Suc.hyps(2) i' by linarith
  have unfold: "(sum_pass arr ^^ (unat n - unat (sum_i s))) s =
      (sum_pass arr ^^ (unat n - unat (sum_i (sum_pass arr s)))) (sum_pass arr s)"
    by (subst more) (simp only: funpow_Suc_right o_apply)
  have loop: "sum_loop Wrap arr n s = sum_loop Wrap arr n (sum_pass arr s)"
    using test body by (subst sum_loop.simps) simp
  show ?case
    using IH by (simp only: unfold loop)
qed

section \<open>Runs of both loops, whatever the outcome\<close>

lemma fib_body_pass: "fib_body pol s = Inr s' \<Longrightarrow> s' = fib_pass s"
  by (auto simp: fib_body_def add_ll_def add_int_def fib_pass_def split: sum.splits if_splits)

lemma sum_body_pass: "sum_body pol arr s = Inr s' \<Longrightarrow> s' = sum_pass arr s"
  by (auto simp: sum_body_def read_int_def square_term_def mul_ll_def add_ll_def sum_pass_def
      split: sum.splits if_splits)

lemma fib_loop_ends:
  assumes n: "sint n < 2 ^ 31 - 1"
  shows "sint (fib_i s) \<le> sint n + 1 \<Longrightarrow>
    \<exists>r. fib_loop pol n s = Some r \<and>
      (\<forall>s'. r = Inr s' \<longrightarrow> s' = (fib_pass ^^ nat (sint n + 1 - sint (fib_i s))) s)"
proof (induction "nat (sint n + 1 - sint (fib_i s))" arbitrary: s)
  case 0
  then have "\<not> fib_i s \<le>s n" by (simp add: word_sle_eq)
  moreover have "nat (sint n + 1 - sint (fib_i s)) = 0" using 0 by simp
  ultimately show ?case by (subst fib_loop.simps) simp
next
  case (Suc d)
  then have test: "fib_i s \<le>s n" by (simp add: word_sle_eq)
  show ?case
  proof (cases "fib_body pol s")
    case (Inl e)
    with test show ?thesis by (subst fib_loop.simps) simp
  next
    case (Inr s1)
    then have s1: "s1 = fib_pass s" by (rule fib_body_pass)
    have i': "sint (fib_i (fib_pass s)) = sint (fib_i s) + 1"
      using sint_incr [OF test n] by (simp add: fib_pass_def)
    have d: "d = nat (sint n + 1 - sint (fib_i (fib_pass s)))"
      using Suc.hyps(2) i' by linarith
    have le: "sint (fib_i (fib_pass s)) \<le> sint n + 1"
      using Suc.hyps(2) i' by linarith
    have IH: "\<exists>r. fib_loop pol n (fib_pass s) = Some r \<and>
        (\<forall>s'. r = Inr s' \<longrightarrow>
           s' = (fib_pass ^^ nat (sint n + 1 - sint (fib_i (fib_pass s)))) (fib_pass s))"
      by (rule Suc.hyps(1) [OF d le])
    have more: "nat (sint n + 1 - sint (fib_i s)) =
        Suc (nat (sint n + 1 - sint (fib_i (fib_pass s))))"
      using Suc.hyps(2) i' by linarith
    have unfold: "(fib_pass ^^ nat (sint n + 1 - sint (fib_i s))) s =
        (fib_pass ^^ nat (sint n + 1 - sint (fib_i (fib_pass s)))) (fib_pass s)"
      by (subst more) (simp only: funpow_Suc_right o_apply)
    have loop: "fib_loop pol n s = fib_loop pol n (fib_pass s)"
      using test Inr s1 by (subst fib_loop.simps) simp
    show ?thesis
      using IH by (simp only: unfold loop)
  qed
qed

lemma sum_loop_ends:
  "sum_i s \<le> n \<Longrightarrow>
    \<exists>r. sum_loop pol arr n s = Some r \<and>
      (\<forall>s'. r = Inr s' \<longrightarrow> s' = (sum_pass arr ^^ (unat n - unat (sum_i s))) s)"
proof (induction "unat n - unat (sum_i s)" arbitrary: s)
  case 0
  then have "\<not> sum_i s < n" by (simp add: word_less_nat_alt)
  moreover have "unat n - unat (sum_i s) = 0" using 0 by simp
  ultimately show ?case by (subst sum_loop.simps) simp
next
  case (Suc d)
  then have test: "sum_i s < n" by (simp add: word_less_nat_alt)
  show ?case
  proof (cases "sum_body pol arr s")
    case (Inl e)
    with test show ?thesis by (subst sum_loop.simps) simp
  next
    case (Inr s1)
    then have s1: "s1 = sum_pass arr s" by (rule sum_body_pass)
    have i': "unat (sum_i (sum_pass arr s)) = Suc (unat (sum_i s))"
      using unat_incr [OF test] by (simp add: sum_pass_def)
    have d: "d = unat n - unat (sum_i (sum_pass arr s))"
      using Suc.hyps(2) i' by linarith
    have le: "sum_i (sum_pass arr s) \<le> n"
      using test i' by (simp add: word_less_nat_alt word_le_nat_alt)
    have IH: "\<exists>r. sum_loop pol arr n (sum_pass arr s) = Some r \<and>
        (\<forall>s'. r = Inr s' \<longrightarrow>
           s' = (sum_pass arr ^^ (unat n - unat (sum_i (sum_pass arr s)))) (sum_pass arr s))"
      by (rule Suc.hyps(1) [OF d le])
    have more: "unat n - unat (sum_i s) = Suc (unat n - unat (sum_i (sum_pass arr s)))"
      using Suc.hyps(2) i' by linarith
    have unfold: "(sum_pass arr ^^ (unat n - unat (sum_i s))) s =
        (sum_pass arr ^^ (unat n - unat (sum_i (sum_pass arr s)))) (sum_pass arr s)"
      by (subst more) (simp only: funpow_Suc_right o_apply)
    have loop: "sum_loop pol arr n s = sum_loop pol arr n (sum_pass arr s)"
      using test Inr s1 by (subst sum_loop.simps) simp
    show ?thesis
      using IH by (simp only: unfold loop)
  qed
qed

section \<open>The call on the machine state and the function agree\<close>

lemma fib_frame_body_state:
  "fib_frame_body pol (m, l) =
     (case fib_body pol (state_of l) of
        Inl e \<Rightarrow> Inl e
      | Inr s' \<Rightarrow> Inr (m, l\<lparr>loc_next := fib_current s', loc_prev := fib_prev s',
                                loc_current := fib_current s', loc_i := fib_i s'\<rparr>))"
  by (simp add: fib_frame_body_def fib_body_def state_of_def Let_def split: sum.splits)

lemma fib_frame_body_run:
  assumes "fib_frame_body pol (m, l) = Inr c'"
  shows "\<exists>s'. fib_body pol (state_of l) = Inr s' \<and> fst c' = m \<and>
    loc_n (snd c') = loc_n l \<and> state_of (snd c') = s'"
  using assms by (auto simp: fib_frame_body_state state_of_def split: sum.splits)

lemma fib_frame_body_undefined:
  "fib_frame_body pol (m, l) = Inl e \<longleftrightarrow> fib_body pol (state_of l) = Inl e"
  by (auto simp: fib_frame_body_state split: sum.splits)

lemma fib_frame_loop_sound:
  assumes "fib_frame_loop pol c = Some y"
  shows "\<exists>r. fib_loop pol (loc_n (snd c)) (state_of (snd c)) = Some r \<and>
    same_run (fst c) (loc_n (snd c)) y r"
proof (rule fib_frame_loop.raw_induct
    [where P = "\<lambda>pol c y. \<exists>r. fib_loop pol (loc_n (snd c)) (state_of (snd c)) = Some r \<and>
       same_run (fst c) (loc_n (snd c)) y r", OF _ assms])
  fix f pol c y
  assume IH: "\<And>pol c y. f pol c = Some y \<Longrightarrow>
      \<exists>r. fib_loop pol (loc_n (snd c)) (state_of (snd c)) = Some r \<and>
        same_run (fst c) (loc_n (snd c)) y r"
    and step: "(if loc_i (snd c) \<le>s loc_n (snd c)
        then case fib_frame_body pol c of Inl e \<Rightarrow> Some (Inl e) | Inr c' \<Rightarrow> f pol c'
        else Some (Inr c)) = Some y"
  obtain m l where c: "c = (m, l)" by (cases c)
  show "\<exists>r. fib_loop pol (loc_n (snd c)) (state_of (snd c)) = Some r \<and>
      same_run (fst c) (loc_n (snd c)) y r"
  proof (cases "loc_i l \<le>s loc_n l")
    case False
    with step c have y: "y = Inr (m, l)" by simp
    have "fib_loop pol (loc_n l) (state_of l) = Some (Inr (state_of l))"
      using False by (subst fib_loop.simps) (simp add: state_of_def)
    with y c show ?thesis by (simp add: same_run_def)
  next
    case True
    then have test: "fib_i (state_of l) \<le>s loc_n l" by (simp add: state_of_def)
    show ?thesis
    proof (cases "fib_frame_body pol (m, l)")
      case (Inl e)
      with step c True have y: "y = Inl e" by simp
      from Inl have "fib_body pol (state_of l) = Inl e"
        by (simp add: fib_frame_body_undefined)
      with test have "fib_loop pol (loc_n l) (state_of l) = Some (Inl e)"
        by (subst fib_loop.simps) simp
      with y c show ?thesis by (simp add: same_run_def)
    next
      case (Inr c')
      with step c True have run: "f pol c' = Some y" by simp
      obtain s' where body: "fib_body pol (state_of l) = Inr s'"
        and c': "fst c' = m" "loc_n (snd c') = loc_n l" "state_of (snd c') = s'"
        using fib_frame_body_run [OF Inr] by blast
      obtain r where r: "fib_loop pol (loc_n (snd c')) (state_of (snd c')) = Some r"
        and same: "same_run (fst c') (loc_n (snd c')) y r"
        using IH [OF run] by blast
      have "fib_loop pol (loc_n l) (state_of l) = fib_loop pol (loc_n l) s'"
        using test body by (subst fib_loop.simps) simp
      with r same c c' show ?thesis by simp
    qed
  qed
qed

lemma fib_frame_loop_complete:
  assumes "fib_loop pol n s = Some r"
  shows "\<forall>m l. loc_n l = n \<and> state_of l = s \<longrightarrow>
    (\<exists>y. fib_frame_loop pol (m, l) = Some y \<and> same_run m n y r)"
proof (rule fib_loop.raw_induct
    [where P = "\<lambda>pol n s r. \<forall>m l. loc_n l = n \<and> state_of l = s \<longrightarrow>
       (\<exists>y. fib_frame_loop pol (m, l) = Some y \<and> same_run m n y r)", OF _ assms])
  fix f pol n s r
  assume IH: "\<And>pol n s r. f pol n s = Some r \<Longrightarrow>
      \<forall>m l. loc_n l = n \<and> state_of l = s \<longrightarrow>
        (\<exists>y. fib_frame_loop pol (m, l) = Some y \<and> same_run m n y r)"
    and step: "(if fib_i s \<le>s n
        then case fib_body pol s of Inl e \<Rightarrow> Some (Inl e) | Inr s' \<Rightarrow> f pol n s'
        else Some (Inr s)) = Some r"
  show "\<forall>m l. loc_n l = n \<and> state_of l = s \<longrightarrow>
      (\<exists>y. fib_frame_loop pol (m, l) = Some y \<and> same_run m n y r)"
  proof (intro allI impI)
    fix m l
    assume "loc_n l = n \<and> state_of l = s"
    then have n: "loc_n l = n" and s: "state_of l = s" by simp_all
    show "\<exists>y. fib_frame_loop pol (m, l) = Some y \<and> same_run m n y r"
    proof (cases "fib_i s \<le>s n")
      case False
      with step have r: "r = Inr s" by simp
      from False n s have "\<not> loc_i l \<le>s loc_n l" by (auto simp: state_of_def)
      then have "fib_frame_loop pol (m, l) = Some (Inr (m, l))"
        by (subst fib_frame_loop.simps) simp
      with r n s show ?thesis by (simp add: same_run_def)
    next
      case True
      with n s have test: "loc_i l \<le>s loc_n l" by (auto simp: state_of_def)
      show ?thesis
      proof (cases "fib_body pol s")
        case (Inl e)
        with step True have r: "r = Inl e" by simp
        from Inl s have "fib_frame_body pol (m, l) = Inl e"
          by (simp add: fib_frame_body_undefined)
        with test have "fib_frame_loop pol (m, l) = Some (Inl e)"
          by (subst fib_frame_loop.simps) simp
        with r show ?thesis by (simp add: same_run_def)
      next
        case (Inr s')
        with step True have run: "f pol n s' = Some r" by simp
        let ?l' = "l\<lparr>loc_next := fib_current s', loc_prev := fib_prev s',
          loc_current := fib_current s', loc_i := fib_i s'\<rparr>"
        have body: "fib_frame_body pol (m, l) = Inr (m, ?l')"
          using Inr s by (simp add: fib_frame_body_state)
        have l': "loc_n ?l' = n" "state_of ?l' = s'"
          using n by (simp_all add: state_of_def)
        obtain y where y: "fib_frame_loop pol (m, ?l') = Some y" and same: "same_run m n y r"
          using IH [OF run] l' by blast
        have "fib_frame_loop pol (m, l) = fib_frame_loop pol (m, ?l')"
          using test body by (subst fib_frame_loop.simps) simp
        with y same show ?thesis by simp
      qed
    qed
  qed
qed

section \<open>Strings in memory\<close>

lemma block_of_extend:
  "block_of m b = Some cs \<Longrightarrow> block_of (m @ [x]) b = Some cs"
  by (simp add: block_of_def nth_append split: if_splits)

lemma block_of_fresh: "block_of m (length m) = None"
  by (simp add: block_of_def)

lemma block_of_new: "block_of (m @ [x]) (length m) = x"
  by (simp add: block_of_def)

lemma block_of_live: "block_of m b = Some cs \<Longrightarrow> b < length m"
  by (simp add: block_of_def split: if_splits)

lemma load_string_extend:
  "load_string m p = Inr s \<Longrightarrow> load_string (m @ [x]) p = Inr s"
  by (auto simp: load_string_def block_of_extend split: pointer.splits option.splits)

lemma load_string_pointer:
  "load_string m p = Inr s \<Longrightarrow> \<exists>b off. p = Ptr b off \<and> b < length m"
  by (auto simp: load_string_def split: pointer.splits option.splits dest: block_of_live)

lemma read_string_terminated:
  "0 \<notin> set s \<Longrightarrow> read_string (map Some s @ Some 0 # rest) = Inr s"
  by (induction s) simp_all

lemma read_string_no_zero: "read_string cs = Inr s \<Longrightarrow> 0 \<notin> set s"
  by (induction cs arbitrary: s rule: read_string.induct) (auto split: if_splits sum.splits)

lemma unat_size:
  assumes "length s + 1 < 2 ^ 64"
  shows "unat ((of_nat (length s) + 1) * 1 :: 64 word) = length s + 1"
proof -
  have eq: "(of_nat (length s) + 1) * 1 = (of_nat (length s + 1) :: 64 word)"
    by simp
  have "unat (of_nat (length s + 1) :: 64 word) = (length s + 1) mod 2 ^ LENGTH(64)"
    by (rule unat_of_nat)
  also have "\<dots> = length s + 1"
    using assms by simp
  finally show ?thesis
    by (simp only: eq)
qed

lemma create_string_success:
  assumes str: "c_string m input s" and ok: "can_alloc m ((of_nat (length s) + 1) * 1)"
  shows "create_string can_alloc m input =
    Inr (Ptr (length m) 0, m @ [Some (map Some (s @ [0]))])"
proof -
  from str have ld: "load_string m input = Inr s" and len: "length s + 1 < 2 ^ 64"
    by (simp_all add: c_string_def)
  let ?sz = "(of_nat (length s) + 1) * 1 :: 64 word"
  let ?m' = "m @ [Some (replicate (length s + 1) None)]"
  have sl: "strlen m input = Inr (of_nat (length s))"
    using ld by (simp add: strlen_def)
  have ma: "malloc can_alloc m ?sz = (Ptr (length m) 0, ?m')"
    using ok unat_size [OF len] by (simp add: malloc_def)
  obtain b off where p: "input = Ptr b off" "b < length m"
    using load_string_pointer [OF ld] by blast
  have ld': "load_string ?m' input = Inr s"
    using ld by (rule load_string_extend)
  have cp: "strcpy ?m' (Ptr (length m) 0) input = Inr (m @ [Some (map Some (s @ [0]))])"
    using ld' p by (simp add: strcpy_def block_of_new)
  show ?thesis
    using sl ma cp by (simp add: create_string_def)
qed

lemma create_string_failure:
  assumes str: "c_string m input s" and no: "\<not> can_alloc m ((of_nat (length s) + 1) * 1)"
  shows "create_string can_alloc m input = Inr (NULL, m)"
proof -
  from str have "strlen m input = Inr (of_nat (length s))"
    by (simp add: c_string_def strlen_def)
  moreover have "malloc can_alloc m ((of_nat (length s) + 1) * 1) = (NULL, m)"
    using no by (simp add: malloc_def)
  ultimately show ?thesis by (simp add: create_string_def)
qed

lemma result_is_string:
  assumes "c_string m input s"
  shows "c_string (m @ [Some (map Some (s @ [0]))]) (Ptr (length m) 0) s"
proof -
  from assms have "0 \<notin> set s" and len: "length s + 1 < 2 ^ 64"
    by (auto simp: c_string_def load_string_def
        split: pointer.splits option.splits dest: read_string_no_zero)
  then have "read_string (map Some s @ Some 0 # []) = Inr s"
    by (intro read_string_terminated)
  then show ?thesis
    using len by (simp add: c_string_def load_string_def block_of_new)
qed

section \<open>The claims\<close>

subsection \<open>fib.c\<close>

text \<open>
  Claim C1. For every index \<open>n\<close> from 0 to 92, the range in which the result fits a
  signed 64-bit integer, under either reading of signed overflow:
  \<open>fibonacci_iterative n\<close> returns a value, and that value is the \<open>n\<close>th Fibonacci
  number with F(0)=0 and F(1)=1. For \<open>n \<le> 1\<close> the value is \<open>n\<close> itself. For \<open>n \<ge> 2\<close>
  the loop leaves the state reached from (i=2, prev=0, current=1) by \<open>n-1\<close> passes
  of \<open>current = prev + current\<close>, and the value is the sum of the values returned
  for \<open>n-1\<close> and \<open>n-2\<close>.
\<close>

theorem fibonacci_iterative_correct:
  assumes "0 \<le> sint n" and "sint n \<le> 92"
  shows "\<exists>r. fibonacci_iterative pol n = Some (Inr r) \<and>
      sint r = int (fib_spec (nat (sint n))) \<and>
      (sint n \<le> 1 \<longrightarrow> r = scast n) \<and>
      (2 \<le> sint n \<longrightarrow>
         fib_loop pol n fib_init = Some (Inr ((fib_pass ^^ (nat (sint n) - 1)) fib_init)) \<and>
         (\<exists>r1 r2. fibonacci_iterative pol (n - 1) = Some (Inr r1) \<and>
                  fibonacci_iterative pol (n - 2) = Some (Inr r2) \<and>
                  sint r = sint r1 + sint r2))"
proof -
  obtain r where r: "fibonacci_iterative pol n = Some (Inr r)"
    and val: "sint r = int (fib_spec (nat (sint n)))"
    using fib_value [OF assms] by blast
  have small: "r = scast n" if "sint n \<le> 1"
    using that r by (simp add: fibonacci_iterative_def word_sle_eq)
  have passes: "fib_loop pol n fib_init = Some (Inr ((fib_pass ^^ (nat (sint n) - 1)) fib_init))"
    if "2 \<le> sint n"
    using that assms(2) by (rule fib_passes)
  have rec: "\<exists>r1 r2. fibonacci_iterative pol (n - 1) = Some (Inr r1) \<and>
      fibonacci_iterative pol (n - 2) = Some (Inr r2) \<and> sint r = sint r1 + sint r2"
    if two: "2 \<le> sint n"
  proof -
    have s1: "sint (n - 1) = sint n - 1"
      using sint_decr [of n 1] two by simp
    have s2: "sint (n - 2) = sint n - 2"
      using sint_decr [of n 2] two by simp
    obtain r1 where r1: "fibonacci_iterative pol (n - 1) = Some (Inr r1)"
      and v1: "sint r1 = int (fib_spec (nat (sint (n - 1))))"
      using fib_value [of "n - 1" pol] s1 two assms(2) by auto
    obtain r2 where r2: "fibonacci_iterative pol (n - 2) = Some (Inr r2)"
      and v2: "sint r2 = int (fib_spec (nat (sint (n - 2))))"
      using fib_value [of "n - 2" pol] s2 two assms(2) by auto
    have n1: "nat (sint (n - 1)) = nat (sint n) - 1" and n2: "nat (sint (n - 2)) = nat (sint n) - 2"
      using s1 s2 by simp_all
    have "fib_spec (nat (sint n)) = fib_spec (nat (sint n) - 1) + fib_spec (nat (sint n) - 2)"
      using two by (intro fib_spec_step) simp
    then have "sint r = sint r1 + sint r2"
      by (simp add: val v1 v2 n1 n2)
    with r1 r2 show ?thesis by blast
  qed
  show ?thesis
    using r val small passes rec by blast
qed

theorem fibonacci_iterative_correct_witness:
  "(0 \<le> sint (10 :: 32 word) \<and> sint (10 :: 32 word) \<le> 92 \<and> 2 \<le> sint (10 :: 32 word) \<and>
    fibonacci_iterative Trap 10 = Some (Inr 55) \<and>
    fibonacci_iterative Trap (10 - 1) = Some (Inr 34) \<and>
    fibonacci_iterative Trap (10 - 2) = Some (Inr 21) \<and>
    fib_loop Trap 10 fib_init = Some (Inr ((fib_pass ^^ (nat (sint (10 :: 32 word)) - 1)) fib_init))) \<and>
   (0 \<le> sint (1 :: 32 word) \<and> sint (1 :: 32 word) \<le> 1 \<and>
    fibonacci_iterative Wrap 1 = Some (Inr (scast (1 :: 32 word))))"
proof -
  have h10: "0 \<le> sint (10 :: 32 word)" "sint (10 :: 32 word) \<le> 92" "2 \<le> sint (10 :: 32 word)"
    by simp_all
  have h1: "0 \<le> sint (1 :: 32 word)" "sint (1 :: 32 word) \<le> 92" "sint (1 :: 32 word) \<le> 1"
    by simp_all
  have v10: "fibonacci_iterative Trap 10 = Some (Inr 55)" by code_simp
  have v9: "fibonacci_iterative Trap (10 - 1) = Some (Inr 34)" by code_simp
  have v8: "fibonacci_iterative Trap (10 - 2) = Some (Inr 21)" by code_simp
  from fibonacci_iterative_correct [OF h10(1,2), of Trap] h10(3)
  have "fib_loop Trap 10 fib_init =
      Some (Inr ((fib_pass ^^ (nat (sint (10 :: 32 word)) - 1)) fib_init))"
    by blast
  moreover from fibonacci_iterative_correct [OF h1(1,2), of Wrap] h1(3)
  have "fibonacci_iterative Wrap 1 = Some (Inr (scast (1 :: 32 word)))"
    by auto
  ultimately show ?thesis
    using h10 h1 v10 v9 v8 by blast
qed

text \<open>
  Claim C8. For every negative \<open>n\<close> the branch \<open>n <= 1\<close> is taken:
  \<open>fibonacci_iterative n\<close> returns \<open>n\<close> itself, widened to \<open>long long\<close>, under either
  reading of signed overflow. The function is defined on all negative inputs.
\<close>

theorem fibonacci_iterative_negative:
  assumes "n <s 0"
  shows "fibonacci_iterative pol n = Some (Inr (scast n)) \<and> sint (scast n :: 64 word) = sint n"
  using assms by (simp add: fibonacci_iterative_def word_sle_eq word_sless_alt sint_widen)

theorem fibonacci_iterative_negative_witness:
  "(- 5 :: 32 word) <s 0 \<and> fibonacci_iterative Trap (- 5) = Some (Inr (- 5)) \<and>
   sint (- 5 :: 64 word) = - 5"
proof -
  have h: "(- 5 :: 32 word) <s 0" by (simp add: word_sless_alt)
  have c: "(scast (- 5 :: 32 word) :: 64 word) = - 5" by simp
  show ?thesis
    using h fibonacci_iterative_negative [OF h, of Trap] by (simp add: c)
qed

text \<open>
  Claim C7. \<open>fibonacci_iterative\<close> is deterministic and has no side effects. Run on
  the machine state, from any memory and any contents of its frame, the call has
  the outcome that the argument \<open>n\<close> alone determines, and it returns the memory
  unchanged. So two calls with the same \<open>n\<close>, from any two states, return the same
  value (or both stop at the same undefined operation, or both never return), and
  each leaves its memory as it found it.
\<close>

theorem fibonacci_iterative_pure:
  "fibonacci_iterative_on pol (m, l) n =
     (case fibonacci_iterative pol n of
        None \<Rightarrow> None
      | Some (Inl e) \<Rightarrow> Some (Inl e)
      | Some (Inr v) \<Rightarrow> Some (Inr (m, v))) \<and>
   fibonacci_iterative_on pol (m', l') n =
     (case fibonacci_iterative_on pol (m, l) n of
        None \<Rightarrow> None
      | Some (Inl e) \<Rightarrow> Some (Inl e)
      | Some (Inr (m1, v)) \<Rightarrow> Some (Inr (m', v)))"
proof -
  have main: "fibonacci_iterative_on pol (m, l) n =
     (case fibonacci_iterative pol n of
        None \<Rightarrow> None
      | Some (Inl e) \<Rightarrow> Some (Inl e)
      | Some (Inr v) \<Rightarrow> Some (Inr (m, v)))" for m l
  proof (cases "n \<le>s 1")
    case True
    then show ?thesis
      by (simp add: fibonacci_iterative_on_def fibonacci_iterative_def)
  next
    case False
    let ?l = "l\<lparr>loc_n := n, loc_prev := 0, loc_current := 1, loc_i := 2\<rparr>"
    have start: "loc_n ?l = n" "state_of ?l = fib_init"
      by (simp_all add: state_of_def fib_init_def)
    have on: "fibonacci_iterative_on pol (m, l) n =
        (case fib_frame_loop pol (m, ?l) of
           None \<Rightarrow> None
         | Some (Inl e) \<Rightarrow> Some (Inl e)
         | Some (Inr (m', l')) \<Rightarrow> Some (Inr (m', loc_current l')))"
      using False by (simp add: fibonacci_iterative_on_def Let_def)
    show ?thesis
    proof (cases "fib_loop pol n fib_init")
      case None
      have "fib_frame_loop pol (m, ?l) = None"
      proof (cases "fib_frame_loop pol (m, ?l)")
        case (Some y)
        from fib_frame_loop_sound [OF Some] None start show ?thesis by simp
      qed simp
      with on None False show ?thesis
        by (simp add: fibonacci_iterative_def)
    next
      case (Some r)
      obtain y where y: "fib_frame_loop pol (m, ?l) = Some y" and same: "same_run m n y r"
        using fib_frame_loop_complete [OF Some] start by blast
      show ?thesis
        using on y same Some False
        by (auto simp: fibonacci_iterative_def same_run_def state_of_def split: sum.splits)
    qed
  qed
  show ?thesis
    by (simp add: main split: option.splits sum.splits)
qed

subsection \<open>array.c\<close>

text \<open>
  Claim C2. For every length \<open>n\<close> and every array whose first \<open>n\<close> elements can be
  read (an array of exactly \<open>n\<close> elements among them), if the exact sum of their
  squares fits the signed 64-bit accumulator, then under either reading of signed
  overflow \<open>sum_of_squares(arr, n)\<close> returns that exact sum, and the loop has made
  \<open>n\<close> passes over the indices 0..n-1 in order. The squares are not negative, so
  every running sum fits as soon as the last one does. The array is only read.
\<close>

theorem sum_of_squares_exact:
  assumes "unat n \<le> length arr"
    and "exact_sum_of_squares (take (unat n) arr) < 2 ^ 63"
  shows "\<exists>r. sum_of_squares pol arr n = Some (Inr r) \<and>
      sint r = exact_sum_of_squares (take (unat n) arr) \<and>
      sum_loop pol arr n sum_init = Some (Inr ((sum_pass arr ^^ unat n) sum_init))"
proof -
  let ?s = "(sum_pass arr ^^ (unat n - 0)) sum_init"
  have "sum_loop pol arr n sum_init = Some (Inr ?s) \<and> sum_inv arr (unat n) ?s"
    using assms by (intro sum_loop_inv sum_inv_init) simp_all
  then show ?thesis
    by (simp add: sum_of_squares_def sum_inv_def)
qed

theorem sum_of_squares_exact_witness:
  "unat (3 :: 64 word) \<le> length [- 3, 2, 1 :: 32 word] \<and>
   exact_sum_of_squares (take (unat (3 :: 64 word)) [- 3, 2, 1]) < 2 ^ 63 \<and>
   (\<exists>r. sum_of_squares Trap [- 3, 2, 1] 3 = Some (Inr r) \<and> sint r = 14)"
proof -
  have len: "unat (3 :: 64 word) \<le> length [- 3, 2, 1 :: 32 word]" by simp
  have val: "exact_sum_of_squares (take (unat (3 :: 64 word)) [- 3, 2, 1]) = 14"
    by (simp add: exact_sum_of_squares_def)
  then have fits: "exact_sum_of_squares (take (unat (3 :: 64 word)) [- 3, 2, 1]) < 2 ^ 63"
    by simp
  obtain r where "sum_of_squares Trap [- 3, 2, 1] 3 = Some (Inr r)"
    and "sint r = exact_sum_of_squares (take (unat (3 :: 64 word)) [- 3, 2, 1])"
    using sum_of_squares_exact [OF len fits, of Trap] by blast
  then have "\<exists>r. sum_of_squares Trap [- 3, 2, 1] 3 = Some (Inr r) \<and> sint r = 14"
    by (simp only: val) blast
  with len fits show ?thesis by blast
qed

text \<open>
  Claim C9. Each squared term is exact: both factors are widened to 64 bits before
  the multiplication, so for every 32-bit element, \<open>INT_MIN\<close> included, the
  product is the square of the element and the multiplication never overflows.
  A signed overflow in a pass of the loop can only come from the addition to the
  running sum.
\<close>

theorem square_term_never_overflows:
  "square_term pol x = Inr (scast x * scast x) \<and>
   sint (scast x * scast x :: 64 word) = sint x * sint x \<and>
   (sum_body pol arr s = Inl SignedOverflow \<longrightarrow>
      (\<exists>y. read_int arr (sum_i s) = Inr y \<and>
           add_ll pol (sum_result s) (scast y * scast y) = Inl SignedOverflow))"
proof -
  have "\<exists>y. read_int arr (sum_i s) = Inr y \<and>
      add_ll pol (sum_result s) (scast y * scast y) = Inl SignedOverflow"
    if "sum_body pol arr s = Inl SignedOverflow"
    using that
    by (auto simp: sum_body_def square_term_exact(1) read_int_def split: sum.splits if_splits)
  then show ?thesis
    by (simp add: square_term_exact)
qed

theorem square_term_never_overflows_witness:
  "sum_body Trap [0x80000000, 0x80000000] \<lparr>sum_i = 1, sum_result = 0x4000000000000000\<rparr>
     = Inl SignedOverflow \<and>
   square_term Trap 0x80000000 = Inr 0x4000000000000000 \<and>
   sint (0x4000000000000000 :: 64 word) = sint (0x80000000 :: 32 word) * sint (0x80000000 :: 32 word) \<and>
   add_ll Trap 0x4000000000000000 0x4000000000000000 = Inl SignedOverflow"
proof -
  let ?arr = "[0x80000000, 0x80000000 :: 32 word]"
  let ?s = "\<lparr>sum_i = 1, sum_result = 0x4000000000000000\<rparr>"
  have sq: "(scast (0x80000000 :: 32 word) :: 64 word) * scast (0x80000000 :: 32 word)
      = 0x4000000000000000"
    by simp
  have add: "add_ll Trap 0x4000000000000000 0x4000000000000000 = Inl SignedOverflow"
    by (simp add: add_ll_def)
  have body: "sum_body Trap ?arr ?s = Inl SignedOverflow"
    by (simp add: sum_body_def read_int_def square_term_def mul_ll_def add_ll_def)
  have "square_term Trap 0x80000000 = Inr 0x4000000000000000 \<and>
      sint (0x4000000000000000 :: 64 word)
        = sint (0x80000000 :: 32 word) * sint (0x80000000 :: 32 word)"
    using square_term_never_overflows [of Trap "0x80000000" ?arr ?s] by (simp only: sq)
  with body add show ?thesis by blast
qed


text \<open>
  Claim C6. For every array and either reading of signed overflow,
  \<open>sum_of_squares(arr, 0)\<close> returns 0: the loop test fails at once and no element is
  read.
\<close>

theorem sum_of_squares_zero: "sum_of_squares pol arr 0 = Some (Inr 0)"
proof -
  have "sum_loop pol arr 0 sum_init = Some (Inr sum_init)"
    by (subst sum_loop.simps) simp
  then show ?thesis by (simp add: sum_of_squares_def sum_init_def)
qed

subsection \<open>string_lib.c\<close>

text \<open>
  Claim C3. For every null-terminated string \<open>s\<close> that \<open>input\<close> points to, when
  \<open>malloc\<close> can serve the request of \<open>length s + 1\<close> bytes: \<open>create_string\<close> returns
  a pointer to the start of a block that did not exist before, the block has
  exactly \<open>length s + 1\<close> bytes, and they are the bytes of \<open>s\<close> followed by the
  terminator, so the result points to the string \<open>s\<close>. All other blocks are as
  they were.
\<close>

theorem create_string_copies:
  assumes "c_string m input s" and "can_alloc m (of_nat (length s) + 1)"
  shows "create_string can_alloc m input =
      Inr (Ptr (length m) 0, m @ [Some (map Some (s @ [0]))]) \<and>
    block_of m (length m) = None \<and>
    length (map Some (s @ [0])) = length s + 1 \<and>
    c_string (m @ [Some (map Some (s @ [0]))]) (Ptr (length m) 0) s"
proof -
  have "can_alloc m ((of_nat (length s) + 1) * 1)"
    using assms(2) by simp
  with assms(1) have "create_string can_alloc m input =
      Inr (Ptr (length m) 0, m @ [Some (map Some (s @ [0]))])"
    by (rule create_string_success)
  moreover have "c_string (m @ [Some (map Some (s @ [0]))]) (Ptr (length m) 0) s"
    using assms(1) by (rule result_is_string)
  ultimately show ?thesis
    by (simp add: block_of_fresh)
qed

theorem create_string_copies_witness:
  "c_string [Some [Some 104, Some 105, Some 0, None]] (Ptr 0 0) [104, 105] \<and>
   (\<lambda>(m :: memory) sz. unat sz \<le> 16) [Some [Some 104, Some 105, Some 0, None]]
     (of_nat (length [104, 105 :: byte]) + 1 :: 64 word) \<and>
   create_string (\<lambda>m sz. unat sz \<le> 16) [Some [Some 104, Some 105, Some 0, None]] (Ptr 0 0) =
     Inr (Ptr 1 0, [Some [Some 104, Some 105, Some 0, None], Some [Some 104, Some 105, Some 0]])"
proof -
  let ?m = "[Some [Some 104, Some 105, Some 0, None]] :: memory"
  let ?A = "\<lambda>(m :: memory) (sz :: 64 word). unat sz \<le> 16"
  have str: "c_string ?m (Ptr 0 0) [104, 105]"
    by (simp add: c_string_def load_string_def block_of_def)
  have ok: "?A ?m (of_nat (length [104, 105 :: byte]) + 1 :: 64 word)"
    by simp
  have res: "create_string ?A ?m (Ptr 0 0) =
      Inr (Ptr 1 0, [Some [Some 104, Some 105, Some 0, None], Some [Some 104, Some 105, Some 0]])"
    using create_string_copies [of ?m "Ptr 0 0" "[104, 105]" ?A, OF str ok] by simp
  show ?thesis
    by (rule conjI [OF str conjI [OF ok res]])
qed

text \<open>
  Claim C4. For every null-terminated input string: if \<open>malloc\<close> cannot serve the
  request, \<open>create_string\<close> returns \<open>NULL\<close> and memory is as it was (nothing is
  copied); if it can, the result is not \<open>NULL\<close>. A null result is the only sign of
  failure.
\<close>

theorem create_string_null_on_failure:
  assumes "c_string m input s"
  shows "(\<not> can_alloc m (of_nat (length s) + 1) \<longrightarrow>
           create_string can_alloc m input = Inr (NULL, m)) \<and>
         (can_alloc m (of_nat (length s) + 1) \<longrightarrow>
           (\<exists>p m'. create_string can_alloc m input = Inr (p, m') \<and> p \<noteq> NULL))"
proof (intro conjI impI)
  assume "\<not> can_alloc m (of_nat (length s) + 1)"
  then have "\<not> can_alloc m ((of_nat (length s) + 1) * 1)" by simp
  with assms show "create_string can_alloc m input = Inr (NULL, m)"
    by (rule create_string_failure)
next
  assume "can_alloc m (of_nat (length s) + 1)"
  then have "can_alloc m ((of_nat (length s) + 1) * 1)" by simp
  with assms have "create_string can_alloc m input =
      Inr (Ptr (length m) 0, m @ [Some (map Some (s @ [0]))])"
    by (rule create_string_success)
  then show "\<exists>p m'. create_string can_alloc m input = Inr (p, m') \<and> p \<noteq> NULL"
    by simp
qed

theorem create_string_null_on_failure_witness:
  "c_string [Some [Some 104, Some 105, Some 0, None]] (Ptr 0 0) [104, 105] \<and>
   \<not> (\<lambda>(m :: memory) sz. unat sz \<le> 2) [Some [Some 104, Some 105, Some 0, None]]
       (of_nat (length [104, 105 :: byte]) + 1 :: 64 word) \<and>
   create_string (\<lambda>m sz. unat sz \<le> 2) [Some [Some 104, Some 105, Some 0, None]] (Ptr 0 0) =
     Inr (NULL, [Some [Some 104, Some 105, Some 0, None]]) \<and>
   (\<lambda>(m :: memory) sz. unat sz \<le> 16) [Some [Some 104, Some 105, Some 0, None]]
       (of_nat (length [104, 105 :: byte]) + 1 :: 64 word) \<and>
   (\<exists>p m'. create_string (\<lambda>m sz. unat sz \<le> 16)
       [Some [Some 104, Some 105, Some 0, None]] (Ptr 0 0) = Inr (p, m') \<and> p \<noteq> NULL)"
proof -
  let ?m = "[Some [Some 104, Some 105, Some 0, None]] :: memory"
  let ?A = "\<lambda>(m :: memory) (sz :: 64 word). unat sz \<le> 2"
  let ?B = "\<lambda>(m :: memory) (sz :: 64 word). unat sz \<le> 16"
  have str: "c_string ?m (Ptr 0 0) [104, 105]"
    by (simp add: c_string_def load_string_def block_of_def)
  have no: "\<not> ?A ?m (of_nat (length [104, 105 :: byte]) + 1 :: 64 word)"
    by simp
  have ok: "?B ?m (of_nat (length [104, 105 :: byte]) + 1 :: 64 word)"
    by simp
  have fail: "create_string ?A ?m (Ptr 0 0) = Inr (NULL, ?m)"
    using create_string_null_on_failure [of ?m "Ptr 0 0" "[104, 105]" ?A, OF str] no
    by (rule conjunct1 [THEN mp])
  have succ: "\<exists>p m'. create_string ?B ?m (Ptr 0 0) = Inr (p, m') \<and> p \<noteq> NULL"
    using create_string_null_on_failure [of ?m "Ptr 0 0" "[104, 105]" ?B, OF str] ok
    by (rule conjunct2 [THEN mp])
  show ?thesis
    by (rule conjI [OF str conjI [OF no conjI [OF fail conjI [OF ok succ]]]])
qed


text \<open>
  Claim C5. \<open>free_string\<close> applied to the null pointer does nothing: it returns
  normally, \<open>free\<close> is not called and memory is as it was.
\<close>

theorem free_string_null: "free_string m NULL = Inr m"
  by (simp add: free_string_def)

subsection \<open>Termination of both loops\<close>

text \<open>
  Claim C10, as stated: both loops terminate on every input, after exactly \<open>n\<close>
  and \<open>max(0, n-1)\<close> passes. It fails for \<open>fibonacci_iterative\<close> at \<open>n = INT_MAX\<close>
  (2147483647): the test \<open>i <= n\<close> can never fail there. If signed overflow wraps,
  the loop runs forever; if it is undefined behaviour, the run stops at the
  overflow of \<open>prev + current\<close>. The loop of \<open>sum_of_squares\<close> does not make its
  \<open>n\<close> passes either when a pass reaches undefined behaviour: on the two elements
  \<open>INT_MIN, INT_MIN\<close> the second addition overflows, and with \<open>n = 1\<close> on an array
  with no readable element the first read is out of bounds.
\<close>

theorem fibonacci_iterative_int_max:
  "fibonacci_iterative Wrap 0x7FFFFFFF = None \<and>
   fibonacci_iterative Trap 0x7FFFFFFF = Some (Inl SignedOverflow) \<and>
   sum_loop Trap [0x80000000, 0x80000000] 2 sum_init = Some (Inl SignedOverflow) \<and>
   sum_loop Wrap [] 1 sum_init = Some (Inl OutOfBounds)"
proof -
  have overflow: "sum_loop Trap [0x80000000, 0x80000000] 2 sum_init = Some (Inl SignedOverflow)"
    by code_simp
  have bounds: "sum_loop Wrap [] 1 sum_init = Some (Inl OutOfBounds)"
    by code_simp
  show ?thesis
    by (rule conjI [OF fib_max_wrap conjI [OF fib_max_trap conjI [OF overflow bounds]]])
qed

text \<open>
  Claim C10, amended. \<open>sum_of_squares\<close> ends on every array and every length.
  Its loop exits, after exactly \<open>n\<close> passes, whenever the first \<open>n\<close> elements can be
  read and either signed overflow wraps or the exact sum of their squares fits
  64 bits; and whenever the loop exits it has made exactly \<open>n\<close> passes.
  \<open>fibonacci_iterative\<close> ends for every \<open>n\<close> other than \<open>INT_MAX\<close>: for \<open>n \<le> 1\<close>,
  negative \<open>n\<close> included, it returns \<open>n\<close> without entering the loop; for \<open>n \<ge> 2\<close> the
  loop, whenever it exits, has made exactly \<open>n - 1\<close> passes, and it does exit for
  \<open>n \<le> 92\<close> and, if signed overflow wraps, for every \<open>n\<close> below \<open>INT_MAX\<close>. A run
  ends when it returns or stops at an operation that C leaves undefined.
\<close>

theorem loops_terminate:
  "(\<exists>r. sum_of_squares pol arr n = Some r) \<and>
   (\<exists>r. sum_loop pol arr n sum_init = Some r \<and>
        (\<forall>s. r = Inr s \<longrightarrow> s = (sum_pass arr ^^ unat n) sum_init) \<and>
        (unat n \<le> length arr \<and>
         (pol = Wrap \<or> exact_sum_of_squares (take (unat n) arr) < 2 ^ 63) \<longrightarrow>
           r = Inr ((sum_pass arr ^^ unat n) sum_init))) \<and>
   (k \<noteq> 0x7FFFFFFF \<longrightarrow>
      (\<exists>r. fibonacci_iterative pol k = Some r) \<and>
      (k \<le>s 1 \<longrightarrow> fibonacci_iterative pol k = Some (Inr (scast k))) \<and>
      (\<not> k \<le>s 1 \<longrightarrow>
         (\<exists>r. fib_loop pol k fib_init = Some r \<and>
              (\<forall>s. r = Inr s \<longrightarrow> s = (fib_pass ^^ (nat (sint k) - 1)) fib_init) \<and>
              (pol = Wrap \<or> sint k \<le> 92 \<longrightarrow> (\<exists>s. r = Inr s)))))"
proof -
  obtain r where r: "sum_loop pol arr n sum_init = Some r"
    and rs: "\<forall>s. r = Inr s \<longrightarrow> s = (sum_pass arr ^^ (unat n - unat (sum_i sum_init))) sum_init"
    using sum_loop_ends [of sum_init n pol arr] by (auto simp: sum_init_def)
  have passes: "\<forall>s. r = Inr s \<longrightarrow> s = (sum_pass arr ^^ unat n) sum_init"
    using rs by (simp add: sum_init_def)
  have exits: "r = Inr ((sum_pass arr ^^ unat n) sum_init)"
    if ok: "unat n \<le> length arr \<and>
      (pol = Wrap \<or> exact_sum_of_squares (take (unat n) arr) < 2 ^ 63)"
  proof -
    from ok have len: "unat n \<le> length arr" by simp
    from ok have "pol = Wrap \<or> exact_sum_of_squares (take (unat n) arr) < 2 ^ 63" by simp
    then have "sum_loop pol arr n sum_init = Some (Inr ((sum_pass arr ^^ unat n) sum_init))"
    proof
      assume "pol = Wrap"
      moreover have "sum_loop Wrap arr n sum_init =
          Some (Inr ((sum_pass arr ^^ (unat n - unat (sum_i sum_init))) sum_init))"
        using len by (intro sum_loop_wrap) (simp_all add: sum_init_def)
      ultimately show ?thesis by (simp add: sum_init_def)
    next
      assume fits: "exact_sum_of_squares (take (unat n) arr) < 2 ^ 63"
      have "sum_loop pol arr n sum_init =
          Some (Inr ((sum_pass arr ^^ (unat n - 0)) sum_init))"
        using len fits by (intro sum_loop_inv [THEN conjunct1] sum_inv_init) simp_all
      then show ?thesis by simp
    qed
    with r show ?thesis by simp
  qed
  have sum_loop: "\<exists>r. sum_loop pol arr n sum_init = Some r \<and>
      (\<forall>s. r = Inr s \<longrightarrow> s = (sum_pass arr ^^ unat n) sum_init) \<and>
      (unat n \<le> length arr \<and>
       (pol = Wrap \<or> exact_sum_of_squares (take (unat n) arr) < 2 ^ 63) \<longrightarrow>
         r = Inr ((sum_pass arr ^^ unat n) sum_init))"
    using r passes exits by blast
  have sum_fun: "\<exists>r. sum_of_squares pol arr n = Some r"
    using r by (cases r) (simp_all add: sum_of_squares_def)
  have fib: "(\<exists>r. fibonacci_iterative pol k = Some r) \<and>
      (k \<le>s 1 \<longrightarrow> fibonacci_iterative pol k = Some (Inr (scast k))) \<and>
      (\<not> k \<le>s 1 \<longrightarrow>
         (\<exists>r. fib_loop pol k fib_init = Some r \<and>
              (\<forall>s. r = Inr s \<longrightarrow> s = (fib_pass ^^ (nat (sint k) - 1)) fib_init) \<and>
              (pol = Wrap \<or> sint k \<le> 92 \<longrightarrow> (\<exists>s. r = Inr s))))"
    if k: "k \<noteq> 0x7FFFFFFF"
  proof (cases "k \<le>s 1")
    case True
    then show ?thesis by (simp add: fibonacci_iterative_def)
  next
    case False
    then have two: "2 \<le> sint k" by (simp add: word_sle_eq)
    have top: "sint k < 2 ^ 31 - 1" using k by (rule below_int_max)
    have start: "sint (fib_i fib_init) \<le> sint k + 1"
      using two by (simp add: fib_init_def)
    have count: "nat (sint k + 1 - sint (fib_i fib_init)) = nat (sint k) - 1"
      using two by (simp add: fib_init_def)
    obtain r where r: "fib_loop pol k fib_init = Some r"
      and rs: "\<forall>s. r = Inr s \<longrightarrow> s = (fib_pass ^^ (nat (sint k) - 1)) fib_init"
      using fib_loop_ends [OF top start, of pol] by (auto simp only: count)
    have normal: "\<exists>s. r = Inr s" if "pol = Wrap \<or> sint k \<le> 92"
      using that
    proof
      assume "pol = Wrap"
      then show ?thesis
        using fib_loop_wrap [OF top start] r by auto
    next
      assume "sint k \<le> 92"
      with two show ?thesis
        using fib_passes [of k pol] r by auto
    qed
    have "\<exists>r'. fibonacci_iterative pol k = Some r'"
      using False r by (cases r) (simp_all add: fibonacci_iterative_def)
    with False r rs normal show ?thesis by blast
  qed
  from sum_fun sum_loop fib show ?thesis by blast
qed

theorem loops_terminate_witness:
  "(10 :: 32 word) \<noteq> 0x7FFFFFFF \<and> \<not> (10 :: 32 word) \<le>s 1 \<and> sint (10 :: 32 word) \<le> 92 \<and>
   (\<exists>s. fib_loop Trap 10 fib_init = Some (Inr s) \<and>
        s = (fib_pass ^^ (nat (sint (10 :: 32 word)) - 1)) fib_init) \<and>
   (- 5 :: 32 word) \<noteq> 0x7FFFFFFF \<and> (- 5 :: 32 word) \<le>s 1 \<and>
   fibonacci_iterative Trap (- 5) = Some (Inr (scast (- 5 :: 32 word))) \<and>
   unat (3 :: 64 word) \<le> length [1, 2, 3 :: 32 word] \<and>
   exact_sum_of_squares (take (unat (3 :: 64 word)) [1, 2, 3]) < 2 ^ 63 \<and>
   sum_loop Trap [1, 2, 3] 3 sum_init =
     Some (Inr ((sum_pass [1, 2, 3] ^^ unat (3 :: 64 word)) sum_init))"
proof -
  have a: "(10 :: 32 word) \<noteq> 0x7FFFFFFF" "\<not> (10 :: 32 word) \<le>s 1" "sint (10 :: 32 word) \<le> 92"
    by (simp_all add: word_sle_eq)
  have b: "(- 5 :: 32 word) \<noteq> 0x7FFFFFFF" "(- 5 :: 32 word) \<le>s 1"
    by (simp_all add: word_sle_eq)
  have len: "unat (3 :: 64 word) \<le> length [1, 2, 3 :: 32 word]" by simp
  have fits: "exact_sum_of_squares (take (unat (3 :: 64 word)) [1, 2, 3]) < 2 ^ 63"
    by (simp add: exact_sum_of_squares_def)
  have fib10: "\<exists>s. fib_loop Trap 10 fib_init = Some (Inr s) \<and>
      s = (fib_pass ^^ (nat (sint (10 :: 32 word)) - 1)) fib_init"
    using loops_terminate [of Trap "[]" 0 10] a by blast
  have neg: "fibonacci_iterative Trap (- 5) = Some (Inr (scast (- 5 :: 32 word)))"
    using loops_terminate [of Trap "[]" 0 "- 5"] b by blast
  have sum3: "sum_loop Trap [1, 2, 3] 3 sum_init =
      Some (Inr ((sum_pass [1, 2, 3] ^^ unat (3 :: 64 word)) sum_init))"
    using loops_terminate [of Trap "[1, 2, 3]" 3 0] len fits by blast
  from a b len fits fib10 neg sum3 show ?thesis by blast
qed

end
